theory Spec2Isabelle
  imports Main "HOL-Library.Word"
begin

section \<open>The singly linked list of linkedlist.h\<close>

subsection \<open>Data model\<close>

text \<open>
  A pointer to a cell is an address or NULL (\<open>None\<close>). The payload \<open>void *value\<close> is an
  opaque handle that the list never follows: NULL is \<open>None\<close>. Integer widths are those
  of 64-bit Linux: \<open>size_t\<close> and \<open>uint_fast32_t\<close> have 64 bits, \<open>uint32_t\<close> has 32, and
  \<open>currentSize - 1\<close> is computed in 32 bits before it is compared with a position.
\<close>

type_synonym addr = nat

record Cell_t =
  cell_value :: "nat option"
  cell_next :: "addr option"

record LinkedList_t =
  head :: "addr option"
  currentSize :: "32 word"

text \<open>
  The store of cells. \<open>cells\<close> is the content of memory at every address, allocated or
  not; \<open>live\<close> are the addresses handed out by \<open>malloc\<close> and not yet given to \<open>free\<close>;
  \<open>brk\<close> is the first address never handed out. \<open>malloc\<close> does not write to the block it
  returns, so a fresh cell holds whatever \<open>cells\<close> has at its address, and a fresh
  \<open>LinkedList_t\<close> holds \<open>fresh_list\<close>.
\<close>

record heap =
  cells :: "addr \<Rightarrow> Cell_t"
  live :: "addr set"
  brk :: addr
  fresh_list :: LinkedList_t

text \<open>
  What a call can do instead of returning: dereference NULL, or never leave a loop that
  follows \<open>next\<close> links (the loops themselves return \<open>None\<close> in that case).
\<close>

datatype error = NullDereference | NonTermination

definition malloc_cell :: "heap \<Rightarrow> addr \<times> heap" where
  "malloc_cell h = (brk h, h\<lparr>live := insert (brk h) (live h), brk := Suc (brk h)\<rparr>)"

definition malloc_list :: "heap \<Rightarrow> LinkedList_t" where
  "malloc_list h = fresh_list h"

definition free_cell :: "heap \<Rightarrow> addr \<Rightarrow> heap" where
  "free_cell h a = h\<lparr>live := live h - {a}\<rparr>"

definition set_value :: "heap \<Rightarrow> addr \<Rightarrow> nat option \<Rightarrow> heap" where
  "set_value h a v = h\<lparr>cells := (cells h)(a := (cells h a)\<lparr>cell_value := v\<rparr>)\<rparr>"

definition set_next :: "heap \<Rightarrow> addr \<Rightarrow> addr option \<Rightarrow> heap" where
  "set_next h a n = h\<lparr>cells := (cells h)(a := (cells h a)\<lparr>cell_next := n\<rparr>)\<rparr>"

definition LIST_HEAD :: "64 word" where
  "LIST_HEAD = 0"

definition LIST_TAIL :: "64 word" where
  "LIST_TAIL = 9223372036854775807"

subsection \<open>Operations\<close>

definition Empty :: "LinkedList_t \<Rightarrow> bool" where
  "Empty list \<longleftrightarrow> head list = None \<and> currentSize list = 0"

text \<open>The loop of PushBack: \<open>while (counter.pivot->next != NULL)\<close>. It runs forever on a cycle.\<close>

partial_function (option) PushBack_loop :: "heap \<Rightarrow> addr \<Rightarrow> addr option" where
  "PushBack_loop h pivot =
     (case cell_next (cells h pivot) of
        None \<Rightarrow> Some pivot
      | Some n \<Rightarrow> PushBack_loop h n)"

declare PushBack_loop.simps [code]

definition PushBack :: "LinkedList_t \<Rightarrow> nat option \<Rightarrow> heap \<Rightarrow> error + (LinkedList_t \<times> heap)" where
  "PushBack list v h =
     (case malloc_cell h of (currentCell, h1) \<Rightarrow>
        let h2 = set_next (set_value h1 currentCell v) currentCell None in
        (case head list of
           None \<Rightarrow> Inr (list\<lparr>head := Some currentCell, currentSize := 1\<rparr>, h2)
         | Some first \<Rightarrow>
             (case PushBack_loop h2 first of
                None \<Rightarrow> Inl NonTermination
              | Some pivot \<Rightarrow>
                  Inr (list\<lparr>currentSize := currentSize list + 1\<rparr>,
                       set_next h2 pivot (Some currentCell)))))"

definition PushFront :: "LinkedList_t \<Rightarrow> nat option \<Rightarrow> heap \<Rightarrow> error + (LinkedList_t \<times> heap)" where
  "PushFront list v h =
     (case malloc_cell h of (currentCell, h1) \<Rightarrow>
        let h2 = set_next (set_value h1 currentCell v) currentCell None in
        (case head list of
           None \<Rightarrow> Inr (list\<lparr>head := Some currentCell, currentSize := 1\<rparr>, h2)
         | Some first \<Rightarrow>
             Inr (list\<lparr>head := Some currentCell, currentSize := currentSize list + 1\<rparr>,
                  set_next h2 currentCell (Some first))))"

text \<open>
  The loop of Free releases every cell but the last one: it stops at the cell whose
  \<open>next\<close> is NULL without releasing it.
\<close>

partial_function (option) Free_loop :: "heap \<Rightarrow> addr \<Rightarrow> heap option" where
  "Free_loop h pivot =
     (case cell_next (cells h pivot) of
        None \<Rightarrow> Some h
      | Some n \<Rightarrow> Free_loop (free_cell h pivot) n)"

declare Free_loop.simps [code]

definition Free :: "LinkedList_t \<Rightarrow> heap \<Rightarrow> error + heap" where
  "Free list h =
     (case head list of
        None \<Rightarrow> Inr h
      | Some first \<Rightarrow>
          (case Free_loop h first of
             None \<Rightarrow> Inl NonTermination
           | Some h' \<Rightarrow> Inr h'))"

text \<open>
  The counting loops compare a 64-bit counter with the position by \<open>!=\<close>; the counter
  starts at 0, so they end after \<open>position\<close> steps unless they dereference NULL before.
\<close>

function RemoveAt_loop ::
  "heap \<Rightarrow> 64 word \<Rightarrow> addr option \<Rightarrow> addr option \<Rightarrow> 64 word \<Rightarrow> error + (addr option \<times> addr option)" where
  "RemoveAt_loop h position beforeTarget pivot currentPosition =
     (if currentPosition \<noteq> position then
        (case pivot of
           None \<Rightarrow> Inl NullDereference
         | Some p \<Rightarrow> RemoveAt_loop h position (Some p) (cell_next (cells h p)) (currentPosition + 1))
      else Inr (beforeTarget, pivot))"
  by pat_completeness auto
termination
proof (relation "measure (\<lambda>(h, position, beforeTarget, pivot, cur). unat (position - cur))", goal_cases)
  case 1
  show ?case by simp
next
  case (2 h position beforeTarget pivot currentPosition p)
  have step: "\<And>x::64 word. x \<noteq> 0 \<Longrightarrow> unat (x - 1) < unat x" by unat_arith
  have "position - currentPosition \<noteq> 0" using 2(1) by (metis right_minus_eq)
  from step [OF this] show ?case by (simp add: algebra_simps)
qed

definition RemoveAt :: "LinkedList_t \<Rightarrow> 64 word \<Rightarrow> heap \<Rightarrow> error + (LinkedList_t \<times> heap)" where
  "RemoveAt list position0 h =
     (let position = (if position0 = LIST_TAIL then ucast (currentSize list - 1) else position0) in
      if Empty list then Inr (list, h)
      else if position < 0 \<or> position > ucast (currentSize list - 1) then Inr (list, h)
      else
        (case RemoveAt_loop h position None (head list) 0 of
           Inl e \<Rightarrow> Inl e
         | Inr (beforeTarget, pivot) \<Rightarrow>
             (case pivot of
                None \<Rightarrow> Inl NullDereference
              | Some p \<Rightarrow>
                  (let afterTarget = cell_next (cells h p) in
                   case beforeTarget of
                     None \<Rightarrow> Inl NullDereference
                   | Some b \<Rightarrow> Inr (list, free_cell (set_next h b afterTarget) p)))))"

function InsertAt_loop ::
  "heap \<Rightarrow> 64 word \<Rightarrow> addr option \<Rightarrow> addr option \<Rightarrow> 64 word \<Rightarrow> error + (addr option \<times> addr option)" where
  "InsertAt_loop h position beforeTarget pivot currentPosition =
     (if currentPosition \<noteq> position then
        (case pivot of
           None \<Rightarrow> Inl NullDereference
         | Some p \<Rightarrow> InsertAt_loop h position (Some p) (cell_next (cells h p)) (currentPosition + 1))
      else Inr (beforeTarget, pivot))"
  by pat_completeness auto
termination
proof (relation "measure (\<lambda>(h, position, beforeTarget, pivot, cur). unat (position - cur))", goal_cases)
  case 1
  show ?case by simp
next
  case (2 h position beforeTarget pivot currentPosition p)
  have step: "\<And>x::64 word. x \<noteq> 0 \<Longrightarrow> unat (x - 1) < unat x" by unat_arith
  have "position - currentPosition \<noteq> 0" using 2(1) by (metis right_minus_eq)
  from step [OF this] show ?case by (simp add: algebra_simps)
qed

text \<open>
  InsertAt allocates its own cell before the bounds check; on the paths that return early
  or delegate to PushFront and PushBack that cell is never linked nor released.
\<close>

definition InsertAt :: "LinkedList_t \<Rightarrow> 64 word \<Rightarrow> nat option \<Rightarrow> heap \<Rightarrow> error + (LinkedList_t \<times> heap)" where
  "InsertAt list position0 v h =
     (let position = (if position0 = LIST_TAIL then ucast (currentSize list - 1) else position0) in
      case malloc_cell h of (currentCell, h1) \<Rightarrow>
        (let h2 = set_next (set_value h1 currentCell v) currentCell None in
         if position < 0 \<or> position > ucast (currentSize list - 1) then Inr (list, h2)
         else if Empty list \<and> position \<noteq> 0 then Inr (list, h2)
         else if position = 0 then PushFront list v h2
         else if position = ucast (currentSize list) then PushBack list v h2
         else
           (case InsertAt_loop h2 position None (head list) 0 of
              Inl e \<Rightarrow> Inl e
            | Inr (beforeTarget, pivot) \<Rightarrow>
                (case beforeTarget of
                   None \<Rightarrow> Inl NullDereference
                 | Some b \<Rightarrow>
                     Inr (list\<lparr>currentSize := currentSize list + 1\<rparr>,
                          set_next (set_next h2 b (Some currentCell)) currentCell pivot)))))"

function GetAt_loop :: "heap \<Rightarrow> 64 word \<Rightarrow> addr option \<Rightarrow> 64 word \<Rightarrow> error + addr option" where
  "GetAt_loop h position pivot currentPosition =
     (if currentPosition \<noteq> position then
        (case pivot of
           None \<Rightarrow> Inl NullDereference
         | Some p \<Rightarrow> GetAt_loop h position (cell_next (cells h p)) (currentPosition + 1))
      else Inr pivot)"
  by pat_completeness auto
termination
proof (relation "measure (\<lambda>(h, position, pivot, cur). unat (position - cur))", goal_cases)
  case 1
  show ?case by simp
next
  case (2 h position pivot currentPosition p)
  have step: "\<And>x::64 word. x \<noteq> 0 \<Longrightarrow> unat (x - 1) < unat x" by unat_arith
  have "position - currentPosition \<noteq> 0" using 2(1) by (metis right_minus_eq)
  from step [OF this] show ?case by (simp add: algebra_simps)
qed

definition GetAt :: "LinkedList_t \<Rightarrow> 64 word \<Rightarrow> heap \<Rightarrow> error + addr option" where
  "GetAt list position0 h =
     (let position = (if position0 = LIST_TAIL then ucast (currentSize list - 1) else position0) in
      if position < 0 \<or> position > ucast (currentSize list - 1) then Inr None
      else if Empty list \<and> position \<noteq> 0 then Inr None
      else if position = 0 then Inr (head list)
      else GetAt_loop h position (head list) 0)"

text \<open>
  Reserve writes neither the \<open>value\<close> of the head cell nor the \<open>next\<close> of the last
  cell: both keep what the allocator's block held.
\<close>

function Reserve_loop :: "heap \<Rightarrow> 64 word \<Rightarrow> addr \<Rightarrow> 64 word \<Rightarrow> heap" where
  "Reserve_loop h positions pivot currentPosition =
     (if currentPosition \<noteq> positions - 1 then
        (case malloc_cell h of (c, h1) \<Rightarrow>
           Reserve_loop (set_value (set_next h1 pivot (Some c)) c None) positions c (currentPosition + 1))
      else h)"
  by pat_completeness auto
termination
proof (relation "measure (\<lambda>(h, positions, pivot, cur). unat (positions - 1 - cur))", goal_cases)
  case 1
  show ?case by simp
next
  case (2 h positions pivot currentPosition c h1)
  have step: "\<And>x::64 word. x \<noteq> 0 \<Longrightarrow> unat (x - 1) < unat x" by unat_arith
  have "positions - 1 - currentPosition \<noteq> 0" using 2(1) by (metis right_minus_eq)
  from step [OF this] show ?case by (simp add: algebra_simps)
qed

definition Reserve :: "64 word \<Rightarrow> heap \<Rightarrow> LinkedList_t \<times> heap" where
  "Reserve positions h =
     (let list = malloc_list h in
      case malloc_cell h of (first, h1) \<Rightarrow>
        (let list1 = list\<lparr>head := Some first\<rparr>;
             h2 = Reserve_loop h1 positions first 0
         in (list1\<lparr>currentSize := ucast positions\<rparr>, h2)))"

text \<open>
  DryNulls never initialises the list it allocates: the first PushBack reads its \<open>head\<close>
  as the allocator left it.
\<close>

function DryNulls_loop ::
  "heap \<Rightarrow> LinkedList_t \<Rightarrow> LinkedList_t \<Rightarrow> addr option \<Rightarrow> 64 word \<Rightarrow> error + (LinkedList_t \<times> heap)" where
  "DryNulls_loop h list newList pivot currentPosition =
     (if currentPosition \<noteq> ucast (currentSize list) then
        (case pivot of
           None \<Rightarrow> Inl NullDereference
         | Some p \<Rightarrow>
             (case (if cell_value (cells h p) \<noteq> None
                    then PushBack newList (cell_value (cells h p)) h
                    else Inr (newList, h)) of
                Inl e \<Rightarrow> Inl e
              | Inr (newList', h') \<Rightarrow>
                  DryNulls_loop h' list newList' (cell_next (cells h' p)) (currentPosition + 1)))
      else Inr (newList, h))"
  by pat_completeness auto
termination
proof (relation "measure (\<lambda>(h, list, newList, pivot, cur). unat (ucast (currentSize list) - cur))", goal_cases)
  case 1
  show ?case by simp
next
  case (2 h list newList pivot currentPosition p x newList' h')
  have step: "\<And>x::64 word. x \<noteq> 0 \<Longrightarrow> unat (x - 1) < unat x" by unat_arith
  have "ucast (currentSize list) - currentPosition \<noteq> 0" using 2(1) by (metis right_minus_eq)
  from step [OF this] show ?case by (simp add: algebra_simps)
qed

definition DryNulls :: "LinkedList_t \<Rightarrow> heap \<Rightarrow> error + (LinkedList_t \<times> heap)" where
  "DryNulls list h =
     (let newList = malloc_list h in
      case DryNulls_loop h list newList (head list) 0 of
        Inl e \<Rightarrow> Inl e
      | Inr (newList', h') \<Rightarrow>
          (case Free list h' of
             Inl e \<Rightarrow> Inl e
           | Inr h'' \<Rightarrow> Inr (newList', h'')))"

definition RetrieveFront :: "LinkedList_t \<Rightarrow> heap \<Rightarrow> error + (addr option \<times> LinkedList_t \<times> heap)" where
  "RetrieveFront list h =
     (if Empty list then Inr (None, list, h)
      else
        (case head list of
           None \<Rightarrow> Inl NullDereference
         | Some firstCell \<Rightarrow>
             Inr (Some firstCell,
                  list\<lparr>head := cell_next (cells h firstCell), currentSize := currentSize list - 1\<rparr>,
                  set_next h firstCell None)))"

partial_function (option) RetrieveBack_loop ::
  "heap \<Rightarrow> addr option \<Rightarrow> addr \<Rightarrow> (addr option \<times> addr) option" where
  "RetrieveBack_loop h beforeTarget pivot =
     (case cell_next (cells h pivot) of
        None \<Rightarrow> Some (beforeTarget, pivot)
      | Some n \<Rightarrow> RetrieveBack_loop h (Some pivot) n)"

declare RetrieveBack_loop.simps [code]

definition RetrieveBack :: "LinkedList_t \<Rightarrow> heap \<Rightarrow> error + (addr option \<times> LinkedList_t \<times> heap)" where
  "RetrieveBack list h =
     (if Empty list then Inr (None, list, h)
      else
        (case head list of
           None \<Rightarrow> Inl NullDereference
         | Some first \<Rightarrow>
             (case RetrieveBack_loop h None first of
                None \<Rightarrow> Inl NonTermination
              | Some (beforeTarget, pivot) \<Rightarrow>
                  (case beforeTarget of
                     None \<Rightarrow> Inl NullDereference
                   | Some b \<Rightarrow>
                       Inr (Some pivot,
                            list\<lparr>currentSize := currentSize list - 1\<rparr>,
                            set_next (set_next h b None) pivot None)))))"

subsection \<open>The structural invariant and the states used as examples\<close>

text \<open>
  \<open>chain_cells h p n\<close>: following \<open>next\<close> from \<open>p\<close> passes exactly \<open>n\<close> cells and then
  reaches NULL. \<open>chain h p as\<close> names the cells passed.
\<close>

fun chain_cells :: "heap \<Rightarrow> addr option \<Rightarrow> nat \<Rightarrow> bool" where
  "chain_cells h p 0 = (p = None)"
| "chain_cells h p (Suc n) =
     (case p of None \<Rightarrow> False | Some a \<Rightarrow> chain_cells h (cell_next (cells h a)) n)"

fun chain :: "heap \<Rightarrow> addr option \<Rightarrow> addr list \<Rightarrow> bool" where
  "chain h p [] = (p = None)"
| "chain h p (a # as) = (p = Some a \<and> chain h (cell_next (cells h a)) as)"

definition list_inv :: "heap \<Rightarrow> LinkedList_t \<Rightarrow> bool" where
  "list_inv h list \<longleftrightarrow>
     (currentSize list = 0) = (head list = None) \<and>
     chain_cells h (head list) (unat (currentSize list))"

definition empty_list :: LinkedList_t where
  "empty_list = \<lparr>head = None, currentSize = 0\<rparr>"

text \<open>A store whose unallocated memory is zero, and one whose unallocated memory is not.\<close>

definition zero_heap :: heap where
  "zero_heap =
     \<lparr>cells = (\<lambda>_. \<lparr>cell_value = None, cell_next = None\<rparr>), live = {}, brk = 0,
      fresh_list = \<lparr>head = None, currentSize = 0\<rparr>\<rparr>"

definition stale_heap :: heap where
  "stale_heap =
     \<lparr>cells = (\<lambda>_. \<lparr>cell_value = Some 99, cell_next = Some 77\<rparr>), live = {}, brk = 0,
      fresh_list = \<lparr>head = None, currentSize = 7\<rparr>\<rparr>"

text \<open>The list of one cell (value 10) and the list of two cells (values 10, 20).\<close>

definition one_heap :: heap where
  "one_heap = zero_heap
     \<lparr>cells := (cells zero_heap)(0 := \<lparr>cell_value = Some 10, cell_next = None\<rparr>),
      live := {0}, brk := 1\<rparr>"

definition one_list :: LinkedList_t where
  "one_list = \<lparr>head = Some 0, currentSize = 1\<rparr>"

definition two_heap :: heap where
  "two_heap = zero_heap
     \<lparr>cells := (cells zero_heap)
        (0 := \<lparr>cell_value = Some 10, cell_next = Some 1\<rparr>,
         1 := \<lparr>cell_value = Some 20, cell_next = None\<rparr>),
      live := {0, 1}, brk := 2\<rparr>"

definition two_list :: LinkedList_t where
  "two_list = \<lparr>head = Some 0, currentSize = 2\<rparr>"

text \<open>\<open>cell_at h p i\<close>: the cell reached from \<open>p\<close> after \<open>i\<close> links, the cell at index \<open>i\<close>.\<close>

fun cell_at :: "heap \<Rightarrow> addr option \<Rightarrow> nat \<Rightarrow> addr option" where
  "cell_at h p 0 = p"
| "cell_at h p (Suc n) = (case p of None \<Rightarrow> None | Some a \<Rightarrow> cell_at h (cell_next (cells h a)) n)"

text \<open>
  The client of the order property: push the values in order onto the empty list, then
  read the value of the cell GetAt returns.
\<close>

fun pushAll :: "nat option list \<Rightarrow> LinkedList_t \<Rightarrow> heap \<Rightarrow> error + (LinkedList_t \<times> heap)" where
  "pushAll [] list h = Inr (list, h)"
| "pushAll (v # vs) list h =
     (case PushBack list v h of Inl e \<Rightarrow> Inl e | Inr (list', h') \<Rightarrow> pushAll vs list' h')"

definition push_then_get :: "nat option list \<Rightarrow> 64 word \<Rightarrow> heap \<Rightarrow> error + nat option option" where
  "push_then_get vs i h =
     (case pushAll vs empty_list h of
        Inl e \<Rightarrow> Inl e
      | Inr (list, h') \<Rightarrow>
          (case GetAt list i h' of
             Inl e \<Rightarrow> Inl e
           | Inr None \<Rightarrow> Inr None
           | Inr (Some a) \<Rightarrow> Inr (Some (cell_value (cells h' a)))))"

text \<open>
  The end-to-end sequence of the specification up to its removal, on the empty list:
  PushBack 10, PushBack 20, PushFront 5, RemoveAt 1. Then the size the list reports and
  what GetAt returns on it.
\<close>

definition end_to_end :: "error + (LinkedList_t \<times> heap)" where
  "end_to_end =
     (case PushBack empty_list (Some 10) zero_heap of
        Inl e \<Rightarrow> Inl e
      | Inr (l1, h1) \<Rightarrow>
          (case PushBack l1 (Some 20) h1 of
             Inl e \<Rightarrow> Inl e
           | Inr (l2, h2) \<Rightarrow>
               (case PushFront l2 (Some 5) h2 of
                  Inl e \<Rightarrow> Inl e
                | Inr (l3, h3) \<Rightarrow> RemoveAt l3 1 h3)))"

definition end_to_end_size :: "error + 32 word" where
  "end_to_end_size =
     (case end_to_end of Inl e \<Rightarrow> Inl e | Inr (list, h) \<Rightarrow> Inr (currentSize list))"

definition end_to_end_GetAt :: "64 word \<Rightarrow> error + addr option" where
  "end_to_end_GetAt position =
     (case end_to_end of Inl e \<Rightarrow> Inl e | Inr (list, h) \<Rightarrow> GetAt list position h)"

section \<open>Unfolding the loops\<close>

lemma PushBack_loop_last: "cell_next (cells h p) = None \<Longrightarrow> PushBack_loop h p = Some p"
  by (subst PushBack_loop.simps) simp

lemma PushBack_loop_step:
  "cell_next (cells h p) = Some n \<Longrightarrow> PushBack_loop h p = PushBack_loop h n"
  by (subst PushBack_loop.simps) simp

lemma Free_loop_last: "cell_next (cells h p) = None \<Longrightarrow> Free_loop h p = Some h"
  by (subst Free_loop.simps) simp

lemma Free_loop_step:
  "cell_next (cells h p) = Some n \<Longrightarrow> Free_loop h p = Free_loop (free_cell h p) n"
  by (subst Free_loop.simps) simp

lemma RetrieveBack_loop_last:
  "cell_next (cells h p) = None \<Longrightarrow> RetrieveBack_loop h b p = Some (b, p)"
  by (subst RetrieveBack_loop.simps) simp

lemma RetrieveBack_loop_step:
  "cell_next (cells h p) = Some n \<Longrightarrow> RetrieveBack_loop h b p = RetrieveBack_loop h (Some p) n"
  by (subst RetrieveBack_loop.simps) simp

lemma chain_cells_numeral:
  "chain_cells h p (numeral k) =
     (case p of None \<Rightarrow> False | Some a \<Rightarrow> chain_cells h (cell_next (cells h a)) (pred_numeral k))"
  by (simp add: numeral_eq_Suc)

lemmas heap_ops = malloc_cell_def malloc_list_def free_cell_def set_value_def set_next_def

lemmas loop_steps = PushBack_loop_last PushBack_loop_step Free_loop_last Free_loop_step
  RetrieveBack_loop_last RetrieveBack_loop_step

section \<open>RemoveAt\<close>

text \<open>
  Claim C9. Whatever the index argument (the LIST_TAIL sentinel and indices beyond any size
  included), RemoveAt on the empty list returns with the list and the store exactly as they
  were: the size stays 0 and the head stays NULL. The function is \<open>void\<close>, so the
  unchanged list is all a caller sees of the failure.
\<close>

theorem RemoveAt_empty_unchanged:
  "RemoveAt \<lparr>head = None, currentSize = 0\<rparr> p h = Inr (\<lparr>head = None, currentSize = 0\<rparr>, h)"
  by (simp add: RemoveAt_def Empty_def Let_def)

text \<open>
  Claim C1 asks every operation to keep the structural invariant. RemoveAt does not: it
  unlinks the cell and never decrements \<open>currentSize\<close>. On the two-cell list, which
  satisfies the invariant, removing index 1 leaves a chain of one cell under a size of 2.
  RetrieveBack does not either on the one-cell list: its loop body never runs, so
  \<open>beforeTarget\<close> is still NULL when \<open>beforeTarget->next\<close> is written.
\<close>

theorem RemoveAt_breaks_invariant:
  "list_inv two_heap two_list \<and>
   (case RemoveAt two_list 1 two_heap of
      Inl e \<Rightarrow> False
    | Inr (l, h) \<Rightarrow> currentSize l = 2 \<and> chain_cells h (head l) 1 \<and> \<not> list_inv h l) \<and>
   list_inv one_heap one_list \<and>
   RetrieveBack one_list one_heap = Inl NullDereference"
  by (simp add: RemoveAt_def RetrieveBack_def Empty_def Let_def LIST_TAIL_def heap_ops
      list_inv_def zero_heap_def one_heap_def one_list_def two_heap_def two_list_def
      chain_cells_numeral loop_steps)

text \<open>
  Claim C2 says RemoveAt at a valid index splices the cell out, makes the second cell the
  head when the index is 0, and decrements the size. On the two-cell list the code at
  index 1 splices the cell out and leaves the size at 2; at index 0 it writes
  \<open>beforeTarget->next\<close> with \<open>beforeTarget\<close> still NULL.
\<close>

theorem RemoveAt_leaves_size:
  "(case RemoveAt two_list 1 two_heap of
      Inl e \<Rightarrow> False
    | Inr (l, h) \<Rightarrow> head l = Some 0 \<and> cell_next (cells h 0) = None \<and> currentSize l = 2) \<and>
   RemoveAt two_list 0 two_heap = Inl NullDereference"
  by (simp add: RemoveAt_def Empty_def Let_def LIST_TAIL_def heap_ops
      zero_heap_def two_heap_def two_list_def)

section \<open>InsertAt\<close>

text \<open>
  Claim C7. For every value \<open>v\<close> and every store, InsertAt at position 0 on the empty list
  succeeds: the list has size 1, its head cell holds \<open>v\<close> and has a NULL \<open>next\<close>, and
  the structural invariant holds. (The head is the second cell allocated: the first one,
  allocated by InsertAt itself before it delegates to PushFront, is left unlinked.)
\<close>

theorem InsertAt_front_of_empty:
  "\<exists>h'. InsertAt \<lparr>head = None, currentSize = 0\<rparr> 0 v h =
          Inr (\<lparr>head = Some (Suc (brk h)), currentSize = 1\<rparr>, h') \<and>
        cells h' (Suc (brk h)) = \<lparr>cell_value = v, cell_next = None\<rparr> \<and>
        list_inv h' \<lparr>head = Some (Suc (brk h)), currentSize = 1\<rparr>"
  by (simp add: InsertAt_def PushFront_def Empty_def Let_def LIST_TAIL_def heap_ops list_inv_def)

text \<open>
  Claim C3 says InsertAt at position \<open>size\<close> appends like PushBack. The bounds check
  \<open>position > currentSize - 1\<close> returns first, so the branch
  \<open>position == currentSize\<close> that delegates to PushBack is never reached on a
  non-empty list: on the one-cell list InsertAt at 1 leaves the list as it was, where
  PushBack appends a second cell.
\<close>

theorem InsertAt_size_is_rejected:
  "list_inv one_heap one_list \<and>
   (case InsertAt one_list 1 (Some 30) one_heap of
      Inl e \<Rightarrow> False
    | Inr (l, h) \<Rightarrow> l = one_list \<and> cell_next (cells h 0) = None) \<and>
   (case PushBack one_list (Some 30) one_heap of
      Inl e \<Rightarrow> False
    | Inr (l, h) \<Rightarrow> currentSize l = 2 \<and> cell_next (cells h 0) = Some 1 \<and>
        cells h 1 = \<lparr>cell_value = Some 30, cell_next = None\<rparr>)"
  by (simp add: InsertAt_def PushBack_def Empty_def Let_def LIST_TAIL_def heap_ops list_inv_def
      zero_heap_def one_heap_def one_list_def loop_steps)

section \<open>Reserve and DryNulls\<close>

text \<open>
  Claim C4 says every cell of Reserve(n) holds a NULL value and the last \<open>next\<close> is NULL.
  Reserve never writes the head cell's \<open>value\<close> nor the last cell's \<open>next\<close>. When the
  allocator returns memory that is not zero, Reserve(3) gives a head cell with the stale
  value and a third cell whose \<open>next\<close> is the stale pointer.
\<close>

theorem Reserve_leaves_stale_fields:
  "(case Reserve 3 stale_heap of
      (l, h) \<Rightarrow> head l = Some 0 \<and> currentSize l = 3 \<and>
        cells h 0 = \<lparr>cell_value = Some 99, cell_next = Some 1\<rparr> \<and>
        cells h 1 = \<lparr>cell_value = None, cell_next = Some 2\<rparr> \<and>
        cells h 2 = \<lparr>cell_value = None, cell_next = Some 77\<rparr> \<and>
        \<not> list_inv h l)"
  by (simp add: Reserve_def Let_def heap_ops list_inv_def stale_heap_def chain_cells_numeral)

text \<open>
  Claim C5 says the list DryNulls returns has as size the number of non-NULL values of its
  input. DryNulls never initialises the list it allocates. On the empty list no PushBack
  runs, and the list returned has the size the allocator's block held (here 7), not 0.
\<close>

theorem DryNulls_returns_uninitialised_list:
  "list_inv stale_heap empty_list \<and>
   (case DryNulls empty_list stale_heap of
      Inl e \<Rightarrow> False
    | Inr (l, h) \<Rightarrow> head l = None \<and> currentSize l = 7)"
  by (simp add: DryNulls_def Free_def Let_def heap_ops list_inv_def stale_heap_def
      empty_list_def)

section \<open>PushBack and RetrieveBack\<close>

text \<open>
  Claim C6 says PushBack followed by RetrieveBack returns the cell just pushed. On the
  empty list PushBack gives a one-cell list, and RetrieveBack on a one-cell list
  dereferences NULL: \<open>beforeTarget\<close> is only set inside the loop, which does not run.
\<close>

theorem RetrieveBack_after_PushBack_on_empty:
  "list_inv zero_heap empty_list \<and>
   (case PushBack empty_list (Some 5) zero_heap of
      Inl e \<Rightarrow> False
    | Inr (l, h) \<Rightarrow> RetrieveBack l h = Inl NullDereference)"
  by (simp add: PushBack_def RetrieveBack_def Empty_def Let_def heap_ops list_inv_def
      zero_heap_def empty_list_def loop_steps)

section \<open>GetAt\<close>

declare GetAt_loop.simps [simp del]

lemma GetAt_loop_done: "GetAt_loop h position pivot position = Inr pivot"
  by (subst GetAt_loop.simps) simp

lemma GetAt_loop_step:
  "cur \<noteq> position \<Longrightarrow>
   GetAt_loop h position (Some p) cur = GetAt_loop h position (cell_next (cells h p)) (cur + 1)"
  by (subst GetAt_loop.simps) simp

lemma GetAt_loop_null:
  "cur \<noteq> position \<Longrightarrow> GetAt_loop h position None cur = Inl NullDereference"
  by (subst GetAt_loop.simps) simp

lemma counter_distance_Suc:
  fixes cur position :: "64 word"
  assumes "unat (position - cur) = Suc k"
  shows "cur \<noteq> position" and "unat (position - (cur + 1)) = k"
proof -
  show ne: "cur \<noteq> position" using assms by auto
  have "position - cur \<noteq> 0" using ne by simp
  then have "unat (position - cur - 1) = unat (position - cur) - 1" by (rule unat_minus_one)
  moreover have "position - (cur + 1) = position - cur - 1" by simp
  ultimately show "unat (position - (cur + 1)) = k" using assms by (simp only: diff_Suc_1 One_nat_def)
qed

lemma GetAt_loop_walks:
  "chain_cells h p n \<Longrightarrow> unat (position - cur) = k \<Longrightarrow> k < n \<Longrightarrow>
   GetAt_loop h position p cur = Inr (cell_at h p k) \<and> cell_at h p k \<noteq> None"
proof (induction k arbitrary: p n cur)
  case 0
  then have "cur = position" by (simp add: unat_eq_zero)
  moreover from 0 obtain m where "n = Suc m" by (cases n) auto
  ultimately show ?case using 0 by (auto simp: GetAt_loop_done split: option.splits)
next
  case (Suc k)
  from Suc.prems obtain m where n: "n = Suc m" by (cases n) auto
  with Suc.prems obtain a where p: "p = Some a" and rest: "chain_cells h (cell_next (cells h a)) m"
    by (auto split: option.splits)
  from counter_distance_Suc [OF Suc.prems(2)]
  have ne: "cur \<noteq> position" and d: "unat (position - (cur + 1)) = k" by simp_all
  from Suc.IH [OF rest d] Suc.prems(3) n
  have "GetAt_loop h position (cell_next (cells h a)) (cur + 1) = Inr (cell_at h (cell_next (cells h a)) k)
        \<and> cell_at h (cell_next (cells h a)) k \<noteq> None" by simp
  then show ?case using p ne by (simp add: GetAt_loop_step)
qed

lemma unat_ucast_size: "unat (ucast (s :: 32 word) :: 64 word) = unat s"
proof -
  have "unat s < 2 ^ 32" using unsigned_less [of s] by simp
  then have "unat s < 2 ^ 64" by simp
  then show ?thesis by (simp add: unsigned_ucast_eq take_bit_nat_eq_self)
qed

lemma ucast_size_pred:
  fixes s :: "32 word"
  shows "unat (ucast (s - 1) :: 64 word) = (if s = 0 then 4294967295 else unat s - 1)"
  by (simp add: unat_ucast_size unat_minus_one unsigned_minus_1_eq_mask mask_eq_exp_minus_1)

text \<open>
  On a list that satisfies the invariant GetAt returns the cell at the resolved position
  when that position is below the size, and NULL otherwise.
\<close>

lemma GetAt_result:
  fixes p :: "64 word"
  assumes inv: "list_inv h list"
  defines "q \<equiv> (if p = LIST_TAIL then ucast (currentSize list - 1) else p)"
  shows "GetAt list p h =
           Inr (if q < ucast (currentSize list) then cell_at h (head list) (unat q) else None)"
    and "q < ucast (currentSize list) \<Longrightarrow> cell_at h (head list) (unat q) \<noteq> None"
proof -
  let ?s = "currentSize list"
  have G: "GetAt list p h =
     (if q < 0 \<or> q > ucast (?s - 1) then Inr None
      else if Empty list \<and> q \<noteq> 0 then Inr None
      else if q = 0 then Inr (head list)
      else GetAt_loop h q (head list) 0)"
    by (simp add: GetAt_def q_def Let_def)
  from inv have hd0: "(?s = 0) = (head list = None)" and ch: "chain_cells h (head list) (unat ?s)"
    by (simp_all add: list_inv_def)
  have lt: "q < ucast ?s \<longleftrightarrow> unat q < unat ?s"
    by (simp add: word_less_nat_alt unat_ucast_size)
  have gt: "q > ucast (?s - 1) \<longleftrightarrow> (if ?s = 0 then 4294967295 else unat ?s - 1) < unat q"
    by (simp only: word_less_nat_alt ucast_size_pred)
  have walk: "unat q < unat ?s \<Longrightarrow>
      GetAt_loop h q (head list) 0 = Inr (cell_at h (head list) (unat q)) \<and>
      cell_at h (head list) (unat q) \<noteq> None"
    using GetAt_loop_walks [OF ch, of q 0 "unat q"] by simp
  show "q < ucast ?s \<Longrightarrow> cell_at h (head list) (unat q) \<noteq> None"
    using walk lt by simp
  show "GetAt list p h =
           Inr (if q < ucast ?s then cell_at h (head list) (unat q) else None)"
  proof (cases "?s = 0")
    case True
    then have "head list = None" using hd0 by simp
    with True show ?thesis unfolding G by (simp add: Empty_def)
  next
    case False
    then have pos: "0 < unat ?s" by (simp add: unat_gt_0)
    have ne: "\<not> Empty list" using False by (simp add: Empty_def)
    show ?thesis
    proof (cases "unat q < unat ?s")
      case True
      then have "\<not> q > ucast (?s - 1)" using False gt by simp
      moreover have "q = 0 \<Longrightarrow> cell_at h (head list) (unat q) = head list" by simp
      ultimately show ?thesis unfolding G using True lt walk ne by auto
    next
      case False
      then have "q > ucast (?s - 1)" using \<open>?s \<noteq> 0\<close> gt pos by simp
      then show ?thesis unfolding G using False lt by simp
    qed
  qed
qed

text \<open>
  Claim C10, for lists that satisfy the structural invariant. GetAt at position 0 on the
  empty list returns NULL, whatever the store. On every list that satisfies the structural
  invariant, with \<open>q\<close> the position after LIST_TAIL is resolved, GetAt returns the cell at
  index \<open>q\<close> when \<open>q < size\<close> and NULL otherwise: there it fails exactly when the
  resolved position is outside \<open>[0, size - 1]\<close>.
\<close>

theorem GetAt_fails_exactly_out_of_range:
  fixes p :: "64 word"
  assumes "list_inv h list"
  shows "GetAt empty_list 0 h = Inr None \<and>
         (let q = (if p = LIST_TAIL then ucast (currentSize list - 1) else p) in
          if q < ucast (currentSize list)
          then \<exists>a. GetAt list p h = Inr (Some a) \<and> cell_at h (head list) (unat q) = Some a
          else GetAt list p h = Inr None)"
proof -
  have "GetAt empty_list 0 h = Inr None"
    by (simp add: GetAt_def empty_list_def LIST_TAIL_def Let_def)
  moreover note GetAt_result [OF assms, of p]
  ultimately show ?thesis by (auto simp: Let_def)
qed

theorem GetAt_fails_exactly_out_of_range_witness:
  "list_inv two_heap two_list \<and>
   GetAt two_list 1 two_heap = Inr (Some 1) \<and>
   GetAt two_list LIST_TAIL two_heap = Inr (Some 1) \<and>
   GetAt two_list 2 two_heap = Inr None"
proof -
  have inv: "list_inv two_heap two_list"
    by (simp add: list_inv_def zero_heap_def two_heap_def two_list_def chain_cells_numeral)
  show ?thesis
    using inv
      GetAt_fails_exactly_out_of_range [OF inv, of 1]
      GetAt_fails_exactly_out_of_range [OF inv, of LIST_TAIL]
      GetAt_fails_exactly_out_of_range [OF inv, of 2]
    by (simp add: Let_def LIST_TAIL_def two_list_def two_heap_def zero_heap_def)
qed

text \<open>
  Claim C10 as stated, for every list, fails on a list the operations themselves produce.
  GetAt trusts \<open>currentSize\<close> and does not check the chain. After PushBack 10,
  PushBack 20, PushFront 5 and RemoveAt 1 the list reports size 3 over a chain of two
  cells, and GetAt at position 2, and at LIST_TAIL, returns NULL although the resolved
  position 2 lies inside \<open>[0, size - 1]\<close>.
\<close>

theorem GetAt_null_inside_range:
  "end_to_end_size = Inr 3 \<and>
   (2 :: 64 word) < ucast (3 :: 32 word) \<and>
   end_to_end_GetAt 2 = Inr None \<and>
   end_to_end_GetAt LIST_TAIL = Inr None"
  by (simp add: end_to_end_size_def end_to_end_GetAt_def end_to_end_def PushBack_def
      PushFront_def RemoveAt_def GetAt_def Empty_def Let_def LIST_TAIL_def heap_ops
      empty_list_def zero_heap_def loop_steps GetAt_loop_done GetAt_loop_step)

section \<open>Order of the values pushed by PushBack\<close>

lemma chain_cong:
  "(\<And>a. a \<in> set as \<Longrightarrow> cell_next (cells h' a) = cell_next (cells h a)) \<Longrightarrow>
   chain h' p as = chain h p as"
  by (induction as arbitrary: p) auto

lemma chain_snoc:
  "chain h p as \<Longrightarrow> as \<noteq> [] \<Longrightarrow> distinct as \<Longrightarrow> c \<notin> set as \<Longrightarrow>
   cell_next (cells h' c) = None \<Longrightarrow> cell_next (cells h' (last as)) = Some c \<Longrightarrow>
   (\<And>a. a \<in> set (butlast as) \<Longrightarrow> cell_next (cells h' a) = cell_next (cells h a)) \<Longrightarrow>
   chain h' p (as @ [c])"
proof (induction as arbitrary: p)
  case Nil
  then show ?case by simp
next
  case (Cons a as)
  show ?case
  proof (cases "as = []")
    case True
    with Cons.prems show ?thesis by simp
  next
    case False
    from Cons.prems False have "chain h' (cell_next (cells h a)) (as @ [c])"
      by (intro Cons.IH) auto
    moreover from Cons.prems False have "cell_next (cells h' a) = cell_next (cells h a)"
      by simp
    ultimately show ?thesis using Cons.prems(1) by simp
  qed
qed

lemma PushBack_loop_chain:
  "chain h (Some a) as \<Longrightarrow> PushBack_loop h a = Some (last as)"
proof (induction as arbitrary: a)
  case Nil
  then show ?case by simp
next
  case (Cons x xs)
  then show ?case
    by (cases xs) (auto simp: PushBack_loop_last PushBack_loop_step)
qed

lemma PushBack_appends:
  assumes ch: "chain h (head list) as" and di: "distinct as" and fr: "\<forall>a\<in>set as. a < brk h"
  shows "\<exists>list' h'. PushBack list v h = Inr (list', h') \<and>
           chain h' (head list') (as @ [brk h]) \<and> brk h' = Suc (brk h) \<and>
           currentSize list' = (if as = [] then 1 else currentSize list + 1) \<and>
           cell_value (cells h' (brk h)) = v \<and>
           (\<forall>a\<in>set as. cell_value (cells h' a) = cell_value (cells h a))"
proof (cases as)
  case Nil
  with ch show ?thesis by (simp add: PushBack_def heap_ops)
next
  case (Cons a as')
  let ?c = "brk h"
  let ?h2 = "set_next (set_value (snd (malloc_cell h)) ?c v) ?c None"
  have c_new: "?c \<notin> set as" using fr by auto
  have hd: "head list = Some a" using ch Cons by simp
  have ch2: "chain ?h2 (Some a) as"
    using ch hd c_new by (subst chain_cong [where h = h]) (auto simp: heap_ops)
  have loop: "PushBack_loop ?h2 a = Some (last as)" by (rule PushBack_loop_chain [OF ch2])
  have last_in: "last as \<in> set as" using Cons by simp
  then have last_ne: "last as \<noteq> ?c" using c_new by auto
  have res: "PushBack list v h =
      Inr (list\<lparr>currentSize := currentSize list + 1\<rparr>, set_next ?h2 (last as) (Some ?c))"
    using hd loop by (simp add: PushBack_def malloc_cell_def Let_def)
  have "chain (set_next ?h2 (last as) (Some ?c)) (head list) (as @ [?c])"
  proof (rule chain_snoc [where h = h])
    show "chain h (head list) as" by (rule ch)
    show "as \<noteq> []" using Cons by simp
    show "distinct as" by (rule di)
    show "?c \<notin> set as" by (rule c_new)
    show "cell_next (cells (set_next ?h2 (last as) (Some ?c)) ?c) = None"
      using last_ne by (simp add: heap_ops)
    show "cell_next (cells (set_next ?h2 (last as) (Some ?c)) (last as)) = Some ?c"
      by (simp add: heap_ops)
    show "cell_next (cells (set_next ?h2 (last as) (Some ?c)) b) = cell_next (cells h b)"
      if "b \<in> set (butlast as)" for b
    proof -
      have "b \<in> set as" using that by (rule in_set_butlastD)
      moreover have "b \<noteq> last as" using that di Cons
        by (metis append_butlast_last_id distinct_append disjoint_iff
            list.distinct(1) list.set_intros(1))
      ultimately show ?thesis using c_new by (auto simp: heap_ops)
    qed
  qed
  moreover have "\<forall>b\<in>set as. cell_value (cells (set_next ?h2 (last as) (Some ?c)) b) = cell_value (cells h b)"
    using c_new by (auto simp: heap_ops)
  moreover have "cell_value (cells (set_next ?h2 (last as) (Some ?c)) ?c) = v"
    using last_ne by (simp add: heap_ops)
  ultimately show ?thesis using res Cons by (simp add: heap_ops)
qed

lemma chain_chain_cells: "chain h p as \<Longrightarrow> chain_cells h p (length as)"
  by (induction as arbitrary: p) auto

lemma chain_cell_at: "chain h p as \<Longrightarrow> i < length as \<Longrightarrow> cell_at h p i = Some (as ! i)"
proof (induction as arbitrary: p i)
  case Nil
  then show ?case by simp
next
  case (Cons a as)
  then show ?case by (cases i) auto
qed

lemma pushAll_appends:
  assumes "chain h (head list) as" and "distinct as" and "\<forall>a\<in>set as. a < brk h"
    and "currentSize list = of_nat (length as)"
  shows "\<exists>list' h' bs. pushAll vs list h = Inr (list', h') \<and>
           chain h' (head list') bs \<and>
           length bs = length as + length vs \<and>
           map (\<lambda>a. cell_value (cells h' a)) bs = map (\<lambda>a. cell_value (cells h a)) as @ vs \<and>
           currentSize list' = of_nat (length bs)"
  using assms
proof (induction vs arbitrary: list h as)
  case Nil
  then show ?case by auto
next
  case (Cons v vs)
  from PushBack_appends [OF Cons.prems(1-3), of v]
  obtain list1 h1 where
    pb: "PushBack list v h = Inr (list1, h1)" and
    ch1: "chain h1 (head list1) (as @ [brk h])" and
    brk1: "brk h1 = Suc (brk h)" and
    sz1: "currentSize list1 = (if as = [] then 1 else currentSize list + 1)" and
    new1: "cell_value (cells h1 (brk h)) = v" and
    old1: "\<forall>a\<in>set as. cell_value (cells h1 a) = cell_value (cells h a)"
    by blast
  have di1: "distinct (as @ [brk h])" using Cons.prems(2,3) by auto
  have fr1: "\<forall>a\<in>set (as @ [brk h]). a < brk h1" using Cons.prems(3) brk1 by auto
  have sz1': "currentSize list1 = of_nat (length (as @ [brk h]))"
    using sz1 Cons.prems(4) by simp
  from Cons.IH [OF ch1 di1 fr1 sz1']
  obtain list' h' bs where
    rest: "pushAll vs list1 h1 = Inr (list', h')" and
    ch': "chain h' (head list') bs" and
    len: "length bs = length (as @ [brk h]) + length vs" and
    vals: "map (\<lambda>a. cell_value (cells h' a)) bs =
            map (\<lambda>a. cell_value (cells h1 a)) (as @ [brk h]) @ vs" and
    sz': "currentSize list' = of_nat (length bs)"
    by blast
  have "map (\<lambda>a. cell_value (cells h1 a)) (as @ [brk h]) =
        map (\<lambda>a. cell_value (cells h a)) as @ [v]"
    using new1 old1 by simp
  with vals have "map (\<lambda>a. cell_value (cells h' a)) bs =
        map (\<lambda>a. cell_value (cells h a)) as @ v # vs" by simp
  moreover have "pushAll (v # vs) list h = Inr (list', h')" using pb rest by simp
  ultimately show ?case using ch' len sz' by auto
qed

lemma unat_of_nat_32: "n < 2 ^ 32 \<Longrightarrow> unat (of_nat n :: 32 word) = n"
  by (simp add: unat_of_nat)

lemma unat_of_nat_64: "n < 2 ^ 32 \<Longrightarrow> unat (of_nat n :: 64 word) = n"
proof -
  assume "n < 2 ^ 32"
  then have "n < 2 ^ 64" by simp
  then show ?thesis by (simp add: unat_of_nat)
qed

lemma of_nat_not_LIST_TAIL: "n < 2 ^ 32 \<Longrightarrow> (of_nat n :: 64 word) \<noteq> LIST_TAIL"
proof
  assume n: "n < 2 ^ 32" and eq: "(of_nat n :: 64 word) = LIST_TAIL"
  from eq have "unat (of_nat n :: 64 word) = unat LIST_TAIL" by simp
  then show False using n by (simp add: unat_of_nat_64 LIST_TAIL_def)
qed

lemma pushAll_from_empty:
  "\<exists>list' h' bs. pushAll vs empty_list h = Inr (list', h') \<and>
           chain h' (head list') bs \<and>
           length bs = length vs \<and>
           map (\<lambda>a. cell_value (cells h' a)) bs = vs \<and>
           currentSize list' = of_nat (length vs)"
proof -
  have "chain h (head empty_list) []" "distinct ([] :: addr list)" "\<forall>a\<in>set []. a < brk h"
       "currentSize empty_list = of_nat (length ([] :: addr list))"
    by (simp_all add: empty_list_def)
  from pushAll_appends [OF this, of vs]
  obtain list' h' bs where
    "pushAll vs empty_list h = Inr (list', h')"
    "chain h' (head list') bs"
    "length bs = length ([] :: addr list) + length vs"
    "map (\<lambda>a. cell_value (cells h' a)) bs = map (\<lambda>a. cell_value (cells h a)) [] @ vs"
    "currentSize list' = of_nat (length bs)"
    by (elim exE conjE) (rule that; assumption)
  then have "pushAll vs empty_list h = Inr (list', h') \<and>
           chain h' (head list') bs \<and>
           length bs = length vs \<and>
           map (\<lambda>a. cell_value (cells h' a)) bs = vs \<and>
           currentSize list' = of_nat (length vs)"
    by (simp only: list.size list.map append_Nil add_0 simp_thms)
  then show ?thesis by blast
qed

text \<open>
  Claim C8, for lists whose length fits \<open>currentSize\<close>: when fewer than \<open>2 ^ 32\<close>
  values are pushed with PushBack onto the empty list, GetAt at every index \<open>i\<close> below
  their number returns the cell that holds the \<open>i\<close>-th value pushed.
\<close>

theorem PushBack_order_preserved:
  assumes n: "length vs < 2 ^ 32" and i: "i < length vs"
  shows "push_then_get vs (of_nat i) h = Inr (Some (vs ! i))"
proof -
  from pushAll_from_empty [of vs h]
  obtain list' h' bs where
    pa: "pushAll vs empty_list h = Inr (list', h')" and
    ch: "chain h' (head list') bs" and
    len: "length bs = length vs" and
    vals: "map (\<lambda>a. cell_value (cells h' a)) bs = vs" and
    sz: "currentSize list' = of_nat (length vs)"
    by (elim exE conjE) (rule that; assumption)
  have usz: "unat (currentSize list') = length vs" using sz n by (simp add: unat_of_nat_32)
  have "(currentSize list' = 0) = (head list' = None)"
  proof -
    have "(currentSize list' = 0) = (unat (currentSize list') = 0)" by (simp only: unat_eq_zero)
    also have "\<dots> = (length bs = 0)" using usz len by (simp only:)
    also have "\<dots> = (bs = [])" by (rule length_0_conv)
    also have "\<dots> = (head list' = None)" using ch by (cases bs) auto
    finally show ?thesis .
  qed
  moreover have "chain_cells h' (head list') (unat (currentSize list'))"
    using chain_chain_cells [OF ch] usz len by simp
  ultimately have inv: "list_inv h' list'" by (simp add: list_inv_def)
  have i32: "i < 2 ^ 32" using n i by simp
  have q: "(if (of_nat i :: 64 word) = LIST_TAIL then ucast (currentSize list' - 1) else of_nat i) = of_nat i"
    using of_nat_not_LIST_TAIL [OF i32] by simp
  have ui: "unat (of_nat i :: 64 word) = i" by (rule unat_of_nat_64 [OF i32])
  have in_range: "(of_nat i :: 64 word) < ucast (currentSize list')"
    using i usz ui by (simp only: word_less_nat_alt unat_ucast_size)
  have "GetAt list' (of_nat i) h' = Inr (cell_at h' (head list') i)"
    using GetAt_result(1) [OF inv, of "of_nat i"] in_range by (simp only: q if_True ui)
  also have "cell_at h' (head list') i = Some (bs ! i)" using chain_cell_at [OF ch] i len by simp
  finally have get: "GetAt list' (of_nat i) h' = Inr (Some (bs ! i))" .
  have "cell_value (cells h' (bs ! i)) = vs ! i"
    using vals i len by (metis nth_map)
  then show ?thesis using pa get by (simp add: push_then_get_def)
qed

theorem PushBack_order_preserved_witness:
  "length [Some 10, Some 20, Some (30::nat)] < 2 ^ 32 \<and>
   1 < length [Some 10, Some 20, Some (30::nat)] \<and>
   push_then_get [Some 10, Some 20, Some 30] 1 zero_heap = Inr (Some (Some 20))"
  using PushBack_order_preserved [of "[Some 10, Some 20, Some 30]" 1 zero_heap] by simp

text \<open>
  Claim C8 as stated, for every number of values, fails once the 32-bit \<open>currentSize\<close>
  has wrapped: after \<open>2 ^ 32 + 1\<close> calls of PushBack the size reads 1, and GetAt at
  index 1 is rejected by the bounds check and returns NULL.
\<close>

theorem PushBack_order_wraps:
  "push_then_get (replicate 4294967297 (Some 0)) 1 zero_heap = Inr None"
proof -
  let ?vs = "replicate 4294967297 (Some (0::nat))"
  from pushAll_from_empty [of ?vs zero_heap]
  obtain list' h' where
    pa: "pushAll ?vs empty_list zero_heap = Inr (list', h')" and
    sz: "currentSize list' = of_nat (length ?vs)"
    by (elim exE conjE) (rule that; assumption)
  have "length ?vs = 4294967297" by (simp only: length_replicate)
  then have "currentSize list' = 1" using sz by simp
  then have "GetAt list' 1 h' = Inr None" by (simp add: GetAt_def LIST_TAIL_def Let_def)
  then show ?thesis unfolding push_then_get_def by (simp only: pa sum.case prod.case option.case)
qed

end
